theory Spec2Isabelle
  imports Main "HOL-Library.Word"
begin

section \<open>JavaScript strings\<close>

text \<open>
  A JavaScript string is a sequence of 16-bit code units; \<open>length\<close> of the list is the
  string's \<open>.length\<close>. The regular expressions of the program have no \<open>u\<close> flag, so
  they too work on code units. \<open>lit\<close> writes an ASCII literal as such a string.
\<close>

type_synonym unit16 = "16 word"
type_synonym jsstring = "unit16 list"

definition lit :: "string \<Rightarrow> jsstring" where
  "lit s = map (\<lambda>c. of_nat (of_char c)) s"

definition LBRACE :: unit16 where "LBRACE = 0x7B"
definition RBRACE :: unit16 where "RBRACE = 0x7D"
definition LANGLE :: unit16 where "LANGLE = 0x3C"
definition RANGLE :: unit16 where "RANGLE = 0x3E"
definition SLASH :: unit16 where "SLASH = 0x2F"
definition LOWER_T :: unit16 where "LOWER_T = 0x74"

text \<open>
  The regular expression atom \<open>.\<close> (without the \<open>s\<close> flag) matches every code unit but
  the four line terminators LF, CR, U+2028 and U+2029; \<open>\d\<close> matches \<open>0\<close> to \<open>9\<close>.
\<close>

definition isLineTerminator :: "unit16 \<Rightarrow> bool" where
  "isLineTerminator c = (c = 0x0A \<or> c = 0x0D \<or> c = 0x2028 \<or> c = 0x2029)"

definition isDigit :: "unit16 \<Rightarrow> bool" where
  "isDigit c = (0x30 \<le> c \<and> c \<le> 0x39)"

text \<open>
  The template literal \<open>${i}\<close> of a non-negative integer counter: its decimal digits,
  without leading zeros.
\<close>

definition digit :: "nat \<Rightarrow> unit16" where
  "digit d = 0x30 + of_nat d"

function decimal :: "nat \<Rightarrow> jsstring" where
  "decimal n = (if n < 10 then [digit n] else decimal (n div 10) @ [digit (n mod 10)])"
  by pat_completeness auto
termination
  by (relation "measure id") auto

declare decimal.simps [simp del]

section \<open>The two regular expressions\<close>

text \<open>
  \<open>/\{\{.*?\}\}/\<close> anchored at the head of a string: the length of the match, if any.
  After the two opening braces the lazy \<open>.*?\<close> first tries to close with \<open>}}\<close> and
  otherwise consumes one code unit that is not a line terminator; there is no other
  choice to backtrack to, so the match ends at the first \<open>}}\<close> that no line terminator
  precedes.
\<close>

fun lazyClose :: "jsstring \<Rightarrow> nat option" where
  "lazyClose [] = None"
| "lazyClose [c] = None"
| "lazyClose (c # d # cs) =
     (if c = RBRACE \<and> d = RBRACE then Some 2
      else if isLineTerminator c then None
      else map_option Suc (lazyClose (d # cs)))"

fun matchPlaceholder :: "jsstring \<Rightarrow> nat option" where
  "matchPlaceholder (a # b # r) =
     (if a = LBRACE \<and> b = LBRACE then map_option (\<lambda>n. n + 2) (lazyClose r) else None)"
| "matchPlaceholder _ = None"

text \<open>
  \<open>/<t\d+\/>/\<close> anchored at the head of a string. The greedy \<open>\d+\<close> takes every digit:
  giving one back leaves a digit where \<open>/\<close> is required.
\<close>

fun matchMarker :: "jsstring \<Rightarrow> nat option" where
  "matchMarker (a # b # r) =
     (if a = LANGLE \<and> b = LOWER_T then
        (let n = length (takeWhile isDigit r) in
         if 0 < n \<and> take 2 (drop n r) = [SLASH, RANGLE] then Some (n + 4) else None)
      else None)"
| "matchMarker _ = None"

text \<open>
  A global (\<open>g\<close> flag) scan, as \<open>String.prototype.match\<close> and
  \<open>String.prototype.replace\<close> both run it: from the left, at each position either the
  expression matches there and the scan goes on behind the match, or the code unit is
  kept and the scan moves one position on. \<open>m\<close> gives the length of the match at the
  head of a string. Both expressions of the program match at least five code units, so
  the empty match (which the language handles by stepping one position) does not occur;
  the scan treats it as no match.
\<close>

datatype token = Lit unit16 | Match jsstring

function regexScan :: "(jsstring \<Rightarrow> nat option) \<Rightarrow> jsstring \<Rightarrow> token list" where
  "regexScan m [] = []"
| "regexScan m (c # cs) =
     (case m (c # cs) of
        Some (Suc n) \<Rightarrow> Match (c # take n cs) # regexScan m (drop n cs)
      | _ \<Rightarrow> Lit c # regexScan m cs)"
  by pat_completeness auto
termination
  by (relation "measure (\<lambda>(m, s). length s)") auto

fun matches :: "token list \<Rightarrow> jsstring list" where
  "matches [] = []"
| "matches (Lit c # ts) = matches ts"
| "matches (Match x # ts) = x # matches ts"

text \<open>
  \<open>text.match(re)\<close> with a global expression: the matched substrings in order, or
  \<open>null\<close> (here \<open>None\<close>) when there is none; never an empty array.
\<close>

definition js_match :: "(jsstring \<Rightarrow> nat option) \<Rightarrow> jsstring \<Rightarrow> jsstring list option" where
  "js_match m s = (case matches (regexScan m s) of [] \<Rightarrow> None | x # xs \<Rightarrow> Some (x # xs))"

text \<open>
  \<open>text.replace(re, () => f(i++))\<close> with a global expression and a replacer that counts
  its calls in \<open>i\<close>: the counter starts at the given value, each match is replaced by
  what the replacer returns for the current count, everything else is kept.
\<close>

fun replaceTokens :: "(nat \<Rightarrow> jsstring) \<Rightarrow> nat \<Rightarrow> token list \<Rightarrow> jsstring" where
  "replaceTokens f i [] = []"
| "replaceTokens f i (Lit c # ts) = c # replaceTokens f i ts"
| "replaceTokens f i (Match x # ts) = f i @ replaceTokens f (Suc i) ts"

definition js_replace :: "(jsstring \<Rightarrow> nat option) \<Rightarrow> (nat \<Rightarrow> jsstring) \<Rightarrow> jsstring \<Rightarrow> jsstring" where
  "js_replace m f s = replaceTokens f 0 (regexScan m s)"

text \<open>The marker \<open>`<t${i}/>`\<close>.\<close>

definition marker :: "nat \<Rightarrow> jsstring" where
  "marker i = [LANGLE, LOWER_T] @ decimal i @ [SLASH, RANGLE]"

section \<open>The batching loop of main\<close>

text \<open>
  Lines 95 to 105 of \<open>main\<close>. \<open>batchIdx\<close> is \<open>Math.max(batches.length - 1, 0)\<close>, so
  \<open>batches[batchIdx]\<close> is missing only while \<open>batches\<close> is empty, where the assignment
  to index 0 makes it \<open>[[]]\<close>. After the push of the key, a batch that has reached 49
  keys makes the loop push a new empty batch at once.
\<close>

definition batchStep :: "'k list list \<Rightarrow> 'k \<Rightarrow> 'k list list" where
  "batchStep batches key =
     (let batchIdx = nat (max (int (length batches) - 1) 0);
          batches1 = (if batchIdx < length batches then batches else batches @ [[]]);
          batches2 = batches1[batchIdx := batches1 ! batchIdx @ [key]]
      in if 49 \<le> length (batches2 ! batchIdx) then batches2 @ [[]] else batches2)"

definition partitionKeys :: "'k list \<Rightarrow> 'k list list" where
  "partitionKeys keys = foldl batchStep [] keys"

section \<open>Plain objects and the program's state\<close>

text \<open>
  \<open>cache\<close> and the objects that \<open>traverseJSON\<close> builds are object literals \<open>{}\<close>: their
  prototype is \<open>Object.prototype\<close>. Such an object is modelled by the list of its own
  properties in the order \<open>Object.keys\<close> enumerates them: first the keys that are array
  indices (canonical decimal numerals up to \<open>2^32 - 2\<close>) in ascending numeric order,
  then all other keys in the order of their creation.
\<close>

definition indexValue :: "jsstring \<Rightarrow> int" where
  "indexValue k = foldl (\<lambda>n c. 10 * n + uint (c - 0x30)) 0 k"

definition isArrayIndex :: "jsstring \<Rightarrow> bool" where
  "isArrayIndex k =
     (k \<noteq> [] \<and> list_all isDigit k \<and> (length k = 1 \<or> hd k \<noteq> 0x30)
      \<and> indexValue k \<le> 4294967294)"

text \<open>
  The names a read falls through to when the object has no own property of that name:
  the properties of \<open>Object.prototype\<close>. All of them hold functions, but \<open>__proto__\<close>,
  an accessor whose getter returns \<open>Object.prototype\<close> itself; none is \<open>undefined\<close>
  and all are truthy.
\<close>

definition objectPrototypeNames :: "jsstring list" where
  "objectPrototypeNames = map lit
     [''constructor'', ''__defineGetter__'', ''__defineSetter__'', ''hasOwnProperty'',
      ''__lookupGetter__'', ''__lookupSetter__'', ''isPrototypeOf'',
      ''propertyIsEnumerable'', ''toString'', ''valueOf'', ''__proto__'',
      ''toLocaleString'']"

datatype 'v lookup = Undefined | Own 'v | Inherited jsstring

text \<open>The read \<open>obj[k]\<close>.\<close>

definition propGet :: "(jsstring \<times> 'v) list \<Rightarrow> jsstring \<Rightarrow> 'v lookup" where
  "propGet ps k =
     (case map_of ps k of
        Some v \<Rightarrow> Own v
      | None \<Rightarrow> if k \<in> set objectPrototypeNames then Inherited k else Undefined)"

fun insertIndex :: "int \<Rightarrow> jsstring \<Rightarrow> 'v \<Rightarrow> (jsstring \<times> 'v) list \<Rightarrow> (jsstring \<times> 'v) list" where
  "insertIndex n k v [] = [(k, v)]"
| "insertIndex n k v ((k', v') # ps) =
     (if isArrayIndex k' \<and> indexValue k' < n then (k', v') # insertIndex n k v ps
      else (k, v) # (k', v') # ps)"

text \<open>
  The assignment \<open>obj[k] = v\<close>. For \<open>k = "__proto__"\<close> it runs the setter inherited from
  \<open>Object.prototype\<close>, which changes the prototype when \<open>v\<close> is an object or \<open>null\<close>
  and does nothing otherwise: in no case does the object get an own property. (The
  model takes the setter to be in reach at every such assignment; it could only be out
  of reach at a second assignment of \<open>__proto__\<close> to the same object, which needs two
  translated keys of one object to be that name.) An existing property keeps its place;
  a new one is placed as \<open>Object.keys\<close> will enumerate it.
\<close>

definition propSet :: "(jsstring \<times> 'v) list \<Rightarrow> jsstring \<Rightarrow> 'v \<Rightarrow> (jsstring \<times> 'v) list" where
  "propSet ps k v =
     (if k = lit ''__proto__'' then ps
      else if map_of ps k \<noteq> None then map (\<lambda>(k', v'). if k' = k then (k', v) else (k', v')) ps
      else if isArrayIndex k then insertIndex (indexValue k) k v ps
      else ps @ [(k, v)])"

text \<open>
  \<open>placeholderMap\<close> is a \<open>Map\<close>: \<open>get\<close> reads own entries only, \<open>set\<close> overwrites the
  value of a key that is present and appends a new key.
\<close>

definition mapGet :: "(jsstring \<times> 'v) list \<Rightarrow> jsstring \<Rightarrow> 'v option" where
  "mapGet ps k = map_of ps k"

definition mapSet :: "(jsstring \<times> 'v) list \<Rightarrow> jsstring \<Rightarrow> 'v \<Rightarrow> (jsstring \<times> 'v) list" where
  "mapSet ps k v =
     (if map_of ps k \<noteq> None then map (\<lambda>(k', v'). if k' = k then (k', v) else (k', v')) ps
      else ps @ [(k, v)])"

text \<open>
  The module's mutable state: the object \<open>cache\<close>, the counter \<open>totalChars\<close> (a sum of
  string lengths, far below \<open>2^53\<close>, so the number is exact) and \<open>placeholderMap\<close>.
\<close>

record state =
  cache :: "(jsstring \<times> jsstring) list"
  totalChars :: nat
  placeholderMap :: "(jsstring \<times> jsstring list) list"

definition initialState :: state where
  "initialState = \<lparr>cache = [], totalChars = 0, placeholderMap = []\<rparr>"

text \<open>
  What the program throws: the \<open>Error\<close> of \<open>translate\<close> with the truncated key of its
  message, the \<open>TypeError\<close> of the language, and whatever the translation provider
  throws.
\<close>

datatype error = EntryNotFound jsstring | TypeError | ProviderError

text \<open>
  What a leaf action returns: a string, or a value read from \<open>Object.prototype\<close> (named
  by its property).
\<close>

datatype jsleaf = LString jsstring | LInherited jsstring

section \<open>The placeholder codec inside addEntry and translate\<close>

definition truncateString :: "jsstring \<Rightarrow> jsstring" where
  "truncateString str = (if 50 < length str then take 50 str @ lit ''...'' else str)"

text \<open>
  Lines 159 and 170 to 171 of \<open>addEntry\<close>, and again lines 186 to 192 of \<open>translate\<close>:
  the placeholders of the text (\<open>null\<close> when it has none) and the key, which is the
  text itself when there is no placeholder and the text with the \<open>i\<close>-th placeholder
  replaced by \<open>marker i\<close> otherwise.
\<close>

definition normalizeText :: "jsstring \<Rightarrow> jsstring \<times> jsstring list option" where
  "normalizeText text =
     (case js_match matchPlaceholder text of
        None \<Rightarrow> (text, None)
      | Some placeholders \<Rightarrow> (js_replace matchPlaceholder marker text, Some placeholders))"

text \<open>
  Lines 207 to 212 of \<open>translate\<close>: each marker of the translated text, in order, is
  replaced by \<open>storedPlaceholders[i++]\<close>. An index past the end reads \<open>undefined\<close>, which
  \<open>replace\<close> inserts as the text \<open>undefined\<close>; when \<open>placeholderMap\<close> has no entry the
  first call of the replacer throws a \<open>TypeError\<close>, and no marker means no call.
\<close>

definition storedAt :: "jsstring list \<Rightarrow> nat \<Rightarrow> jsstring" where
  "storedAt storedPlaceholders i =
     (if i < length storedPlaceholders then storedPlaceholders ! i else lit ''undefined'')"

definition denormalizeText :: "jsstring \<Rightarrow> jsstring list option \<Rightarrow> error + jsstring" where
  "denormalizeText translatedText stored =
     (case stored of
        None \<Rightarrow>
          (if matches (regexScan matchMarker translatedText) = [] then Inr translatedText
           else Inl TypeError)
      | Some storedPlaceholders \<Rightarrow>
          Inr (js_replace matchMarker (storedAt storedPlaceholders) translatedText))"

text \<open>
  Lines 203 to 214 of \<open>translate\<close>: a text without placeholders gets the translated text
  as it is; otherwise the stored placeholders are put back.
\<close>

definition restorePlaceholders ::
    "jsstring list option \<Rightarrow> jsstring \<Rightarrow> jsstring list option \<Rightarrow> error + jsstring" where
  "restorePlaceholders originalPlaceholders translatedText stored =
     (if originalPlaceholders = None then Inr translatedText
      else denormalizeText translatedText stored)"

text \<open>The text a token list stands for, and the number of markers of a text.\<close>

fun tokensText :: "token list \<Rightarrow> jsstring" where
  "tokensText [] = []"
| "tokensText (Lit c # ts) = c # tokensText ts"
| "tokensText (Match x # ts) = x @ tokensText ts"

definition markerCount :: "jsstring \<Rightarrow> nat" where
  "markerCount s = length (matches (regexScan matchMarker s))"

section \<open>addEntry and translate\<close>

text \<open>
  Both guards of \<open>addEntry\<close> test \<open>!cache[key]\<close>, the falsiness of what the read gives:
  \<open>undefined\<close> and the empty string are falsy, every other string and every value of
  \<open>Object.prototype\<close> is truthy.
\<close>

fun truthy :: "jsstring lookup \<Rightarrow> bool" where
  "truthy Undefined = False"
| "truthy (Own v) = (v \<noteq> [])"
| "truthy (Inherited k) = True"

text \<open>
  \<open>addEntry\<close> (lines 156 to 181); the calls of \<open>debug\<close> only print. It is called with
  strings only, so of its first test \<open>!text\<close> remains: the empty string.
\<close>

definition addEntry :: "jsstring \<Rightarrow> state \<Rightarrow> error + (jsleaf \<times> state)" where
  "addEntry text st =
     (if text = [] then Inr (LString text, st)
      else case normalizeText text of
        (_, None) \<Rightarrow>
          Inr (LString text,
            if \<not> truthy (propGet (cache st) text)
            then st\<lparr>totalChars := totalChars st + length text,
                    cache := propSet (cache st) text []\<rparr>
            else st)
      | (processedText, Some placeholders) \<Rightarrow>
          Inr (LString text,
            if \<not> truthy (propGet (cache st) processedText)
            then st\<lparr>totalChars := totalChars st + length processedText,
                    placeholderMap := mapSet (placeholderMap st) processedText placeholders,
                    cache := propSet (cache st) processedText []\<rparr>
            else st))"

text \<open>
  \<open>translate\<close> (lines 183 to 215). Only \<open>undefined\<close> makes it throw. A value read from
  \<open>Object.prototype\<close> is not \<open>undefined\<close>: it is returned as it is when the text has no
  placeholder, and has no method \<open>replace\<close> otherwise.
\<close>

definition translate :: "jsstring \<Rightarrow> state \<Rightarrow> error + (jsleaf \<times> state)" where
  "translate text st =
     (if text = [] then Inr (LString text, st)
      else case normalizeText text of
        (processedTextKey, originalPlaceholders) \<Rightarrow>
          (case propGet (cache st) processedTextKey of
             Undefined \<Rightarrow> Inl (EntryNotFound (truncateString processedTextKey))
           | Inherited k \<Rightarrow>
               (if originalPlaceholders = None then Inr (LInherited k, st) else Inl TypeError)
           | Own translatedText \<Rightarrow>
               (case restorePlaceholders originalPlaceholders translatedText
                       (mapGet (placeholderMap st) processedTextKey) of
                  Inl e \<Rightarrow> Inl e
                | Inr restoredText \<Rightarrow> Inr (LString restoredText, st))))"

section \<open>JSON values and traverseJSON\<close>

text \<open>
  What \<open>JSON.parse\<close> returns, with \<open>'n\<close> for the numbers, which the program never
  looks into. An object is the list of its own properties in the order of
  \<open>Object.keys\<close>. \<open>JForeign\<close> is a value of \<open>Object.prototype\<close> that \<open>translate\<close> has put
  in the place of a leaf; it is no JSON value and never part of an input.
\<close>

datatype 'n jsvalue =
    JNull
  | JBool bool
  | JNumber 'n
  | JString jsstring
  | JArray "'n jsvalue list"
  | JObject "(jsstring \<times> 'n jsvalue) list"
  | JForeign jsstring

fun ofLeaf :: "jsleaf \<Rightarrow> 'n jsvalue" where
  "ofLeaf (LString s) = JString s"
| "ofLeaf (LInherited k) = JForeign k"

text \<open>
  A value used as a property key is converted to a string. A function of
  \<open>Object.prototype\<close> converts to its source text, \<open>Object.prototype\<close> itself (read
  under \<open>__proto__\<close>) to \<open>[object Object]\<close>.
\<close>

definition inheritedToString :: "jsstring \<Rightarrow> jsstring" where
  "inheritedToString k =
     (if k = lit ''__proto__'' then lit ''[object Object]''
      else lit ''function '' @ (if k = lit ''constructor'' then lit ''Object'' else k)
           @ lit ''() { [native code] }'')"

fun toPropertyKey :: "jsleaf \<Rightarrow> jsstring" where
  "toPropertyKey (LString s) = s"
| "toPropertyKey (LInherited k) = inheritedToString k"

type_synonym action = "jsstring \<Rightarrow> state \<Rightarrow> error + (jsleaf \<times> state)"

text \<open>
  \<open>traverseJSON\<close> (lines 217 to 235), with the module constant \<open>translateProperties\<close>
  as its first argument. An array is walked element by element, each result stored
  back in place, and returned; an object is rebuilt into a new object, key by key in
  the order of \<open>Object.keys\<close>: the key is \<open>translate(key)\<close> when \<open>translateProperties\<close>
  is set and the key itself otherwise, then the value is walked, then the property is
  assigned. A throw anywhere ends the whole walk. The model returns the walked array
  as a value and leaves its input as it was; that the source also leaves the results
  in the input array shows only when this same tree is walked a second time.
\<close>

fun traverseJSON :: "bool \<Rightarrow> action \<Rightarrow> 'n jsvalue \<Rightarrow> state \<Rightarrow> error + ('n jsvalue \<times> state)"
  and traverseElems :: "bool \<Rightarrow> action \<Rightarrow> 'n jsvalue list \<Rightarrow> state
      \<Rightarrow> error + ('n jsvalue list \<times> state)"
  and traverseProps :: "bool \<Rightarrow> action \<Rightarrow> (jsstring \<times> 'n jsvalue) list
      \<Rightarrow> (jsstring \<times> 'n jsvalue) list \<Rightarrow> state
      \<Rightarrow> error + ((jsstring \<times> 'n jsvalue) list \<times> state)"
where
  "traverseJSON translateProperties act (JArray xs) st =
     (case traverseElems translateProperties act xs st of
        Inl e \<Rightarrow> Inl e
      | Inr (ys, st') \<Rightarrow> Inr (JArray ys, st'))"
| "traverseJSON translateProperties act (JObject ps) st =
     (case traverseProps translateProperties act ps [] st of
        Inl e \<Rightarrow> Inl e
      | Inr (newObject, st') \<Rightarrow> Inr (JObject newObject, st'))"
| "traverseJSON translateProperties act (JString s) st =
     (case act s st of
        Inl e \<Rightarrow> Inl e
      | Inr (r, st') \<Rightarrow> Inr (ofLeaf r, st'))"
| "traverseJSON translateProperties act JNull st = Inr (JNull, st)"
| "traverseJSON translateProperties act (JBool b) st = Inr (JBool b, st)"
| "traverseJSON translateProperties act (JNumber n) st = Inr (JNumber n, st)"
| "traverseJSON translateProperties act (JForeign k) st = Inr (JForeign k, st)"
| "traverseElems translateProperties act [] st = Inr ([], st)"
| "traverseElems translateProperties act (x # xs) st =
     (case traverseJSON translateProperties act x st of
        Inl e \<Rightarrow> Inl e
      | Inr (y, st1) \<Rightarrow>
          (case traverseElems translateProperties act xs st1 of
             Inl e \<Rightarrow> Inl e
           | Inr (ys, st2) \<Rightarrow> Inr (y # ys, st2)))"
| "traverseProps translateProperties act [] newObject st = Inr (newObject, st)"
| "traverseProps translateProperties act ((key, v) # ps) newObject st =
     (case (if translateProperties then translate key st else Inr (LString key, st)) of
        Inl e \<Rightarrow> Inl e
      | Inr (translatedKey, st1) \<Rightarrow>
          (case traverseJSON translateProperties act v st1 of
             Inl e \<Rightarrow> Inl e
           | Inr (v', st2) \<Rightarrow>
               traverseProps translateProperties act ps
                 (propSet newObject (toPropertyKey translatedKey) v') st2))"

text \<open>
  The values that \<open>JSON.parse\<close> returns: in every object the keys are distinct and stand
  in the order of \<open>Object.keys\<close>, array indices ascending before all other keys.
  \<open>plainJSON\<close> holds for those of them that have no key \<open>__proto__\<close>.
\<close>

definition keyFits :: "jsstring list \<Rightarrow> jsstring \<Rightarrow> bool" where
  "keyFits before k =
     (k \<notin> set before
      \<and> (if isArrayIndex k
         then list_all (\<lambda>k'. isArrayIndex k' \<and> indexValue k' < indexValue k) before
         else True))"

fun keysInOrder :: "jsstring list \<Rightarrow> jsstring list \<Rightarrow> bool" where
  "keysInOrder before [] = True"
| "keysInOrder before (k # ks) = (keyFits before k \<and> keysInOrder (before @ [k]) ks)"

fun plainJSON :: "'n jsvalue \<Rightarrow> bool"
  and plainElems :: "'n jsvalue list \<Rightarrow> bool"
  and plainProps :: "(jsstring \<times> 'n jsvalue) list \<Rightarrow> bool"
where
  "plainJSON (JArray xs) = plainElems xs"
| "plainJSON (JObject ps) =
     (keysInOrder [] (map fst ps) \<and> lit ''__proto__'' \<notin> set (map fst ps) \<and> plainProps ps)"
| "plainJSON (JForeign k) = False"
| "plainJSON JNull = True"
| "plainJSON (JBool b) = True"
| "plainJSON (JNumber n) = True"
| "plainJSON (JString s) = True"
| "plainElems [] = True"
| "plainElems (x # xs) = (plainJSON x \<and> plainElems xs)"
| "plainProps [] = True"
| "plainProps ((k, v) # ps) = (plainJSON v \<and> plainProps ps)"



text \<open>The identity as a leaf action.\<close>

definition identityAction :: action where
  "identityAction s st = Inr (LString s, st)"

section \<open>Submitting the batches\<close>

text \<open>
  Lines 118 to 120 of \<open>main\<close>: \<open>response.map((res, i) => { cache[batch[i]] = res.text })\<close>.
  The loop runs over the response; \<open>batch[i]\<close> past the end of the batch is
  \<open>undefined\<close>, which as a property key is the string \<open>undefined\<close>.
\<close>

definition batchKey :: "jsstring list \<Rightarrow> nat \<Rightarrow> jsstring" where
  "batchKey batch i = (if i < length batch then batch ! i else lit ''undefined'')"

fun resolveBatch :: "jsstring list \<Rightarrow> nat \<Rightarrow> jsstring list
    \<Rightarrow> (jsstring \<times> jsstring) list \<Rightarrow> (jsstring \<times> jsstring) list" where
  "resolveBatch batch i [] c = c"
| "resolveBatch batch i (res # response) c =
     resolveBatch batch (Suc i) response (propSet c (batchKey batch i) res)"

text \<open>
  Lines 107 to 121 of \<open>main\<close>: the batches are sent one after the other. The provider
  (\<open>translator.translateText\<close>, not part of the program) is a parameter: it answers a
  batch with the texts of its response, or throws.
\<close>

type_synonym provider = "jsstring list \<Rightarrow> error + jsstring list"

fun submitBatches :: "provider \<Rightarrow> jsstring list list \<Rightarrow> state \<Rightarrow> error + state" where
  "submitBatches translateText [] st = Inr st"
| "submitBatches translateText (batch # batches) st =
     (case translateText batch of
        Inl e \<Rightarrow> Inl e
      | Inr response \<Rightarrow>
          submitBatches translateText batches
            (st\<lparr>cache := resolveBatch batch 0 response (cache st)\<rparr>))"

section \<open>Normalization as the specification words it\<close>

text \<open>
  The specification's \<open>normalize\<close>: the text is scanned from the left for
  non-overlapping matches of \<open>{{\<close>, then as few characters as possible, then \<open>}}\<close>;
  the \<open>i\<close>-th match, counted from 0, is replaced by \<open>marker i\<close>; the result is the
  rewritten text and the list of the matched substrings, empty when there is none.
  Which characters may stand between the braces is the parameter \<open>anyChar\<close>: the
  specification says any.
\<close>

fun spec_body :: "(unit16 \<Rightarrow> bool) \<Rightarrow> jsstring \<Rightarrow> jsstring option" where
  "spec_body anyChar [] = None"
| "spec_body anyChar (c # cs) =
     (if take 2 (c # cs) = [RBRACE, RBRACE] then Some []
      else if anyChar c then map_option ((#) c) (spec_body anyChar cs)
      else None)"

definition spec_placeholderAt :: "(unit16 \<Rightarrow> bool) \<Rightarrow> jsstring \<Rightarrow> jsstring option" where
  "spec_placeholderAt anyChar s =
     (if take 2 s = [LBRACE, LBRACE]
      then map_option (\<lambda>body. [LBRACE, LBRACE] @ body @ [RBRACE, RBRACE])
             (spec_body anyChar (drop 2 s))
      else None)"

text \<open>
  One pass over the text; \<open>skip\<close> counts the code units that still belong to the
  match just replaced.
\<close>

fun spec_scan :: "(unit16 \<Rightarrow> bool) \<Rightarrow> nat \<Rightarrow> nat \<Rightarrow> jsstring \<Rightarrow> jsstring \<times> jsstring list" where
  "spec_scan anyChar i skip [] = ([], [])"
| "spec_scan anyChar i (Suc skip) (c # cs) = spec_scan anyChar i skip cs"
| "spec_scan anyChar i 0 (c # cs) =
     (case spec_placeholderAt anyChar (c # cs) of
        Some p \<Rightarrow>
          (case spec_scan anyChar (Suc i) (length p - 1) cs of
             (key, placeholders) \<Rightarrow> (marker i @ key, p # placeholders))
      | None \<Rightarrow>
          (case spec_scan anyChar i 0 cs of
             (key, placeholders) \<Rightarrow> (c # key, placeholders)))"

definition spec_normalize :: "(unit16 \<Rightarrow> bool) \<Rightarrow> jsstring \<Rightarrow> jsstring \<times> jsstring list" where
  "spec_normalize anyChar text = spec_scan anyChar 0 0 text"

text \<open>The program's \<open>null\<close> for no placeholders, read as the empty list.\<close>

fun placeholderList :: "jsstring list option \<Rightarrow> jsstring list" where
  "placeholderList None = []"
| "placeholderList (Some placeholders) = placeholders"

section \<open>The batches\<close>

lemma batchStep_Nil: "batchStep [] key = [[key]]"
  by (simp add: batchStep_def)

lemma batchStep_snoc:
  "batchStep (bs @ [b]) key =
     (if 48 \<le> length b then bs @ [b @ [key], []] else bs @ [b @ [key]])"
  by (simp add: batchStep_def Let_def nth_append)

text \<open>The shape of the batches after any number of keys.\<close>

lemma foldl_batchStep_snoc:
  "length b < 49 \<Longrightarrow>
   \<exists>full cur. foldl batchStep (bs @ [b]) keys = bs @ full @ [cur]
      \<and> concat (full @ [cur]) = b @ keys
      \<and> list_all (\<lambda>x. length x = 49) full \<and> length cur < 49"
proof (induction keys arbitrary: bs b)
  case Nil
  show ?case by (rule exI [of _ "[]"], rule exI [of _ b]) (simp add: Nil)
next
  case (Cons k keys)
  show ?case
  proof (cases "48 \<le> length b")
    case True
    with Cons.prems have len: "length (b @ [k]) = 49" by simp
    have "length ([]::'a list) < 49" by simp
    from Cons.IH [OF this, of "bs @ [b @ [k]]"]
    obtain full cur where
      f: "foldl batchStep ((bs @ [b @ [k]]) @ [[]]) keys = (bs @ [b @ [k]]) @ full @ [cur]"
      and c: "concat (full @ [cur]) = [] @ keys"
      and a: "list_all (\<lambda>x. length x = 49) full" and l: "length cur < 49"
      by blast
    show ?thesis
      apply (rule exI [of _ "(b @ [k]) # full"], rule exI [of _ cur])
      using f c a l len True by (simp add: batchStep_snoc)
  next
    case False
    then have "length (b @ [k]) < 49" by simp
    from Cons.IH [OF this, of bs]
    obtain full cur where
      f: "foldl batchStep (bs @ [b @ [k]]) keys = bs @ full @ [cur]"
      and c: "concat (full @ [cur]) = (b @ [k]) @ keys"
      and a: "list_all (\<lambda>x. length x = 49) full" and l: "length cur < 49"
      by blast
    show ?thesis
      apply (rule exI [of _ full], rule exI [of _ cur])
      using f c a l False by (simp add: batchStep_snoc)
  qed
qed

lemma partitionKeys_shape:
  "keys \<noteq> [] \<Longrightarrow>
   \<exists>full cur. partitionKeys keys = full @ [cur] \<and> concat (full @ [cur]) = keys
      \<and> list_all (\<lambda>x. length x = 49) full \<and> length cur < 49"
proof (cases keys)
  case Nil
  assume "keys \<noteq> []" with Nil show ?thesis by simp
next
  case (Cons k ks)
  have "length [k] < 49" by simp
  from foldl_batchStep_snoc [OF this, of "[]" ks]
  show ?thesis by (simp add: partitionKeys_def Cons batchStep_Nil)
qed

lemma length_concat_full:
  "list_all (\<lambda>x. length x = 49) full \<Longrightarrow> length (concat full) = 49 * length full"
  by (induction full) auto

lemma partitionKeys_Nil: "partitionKeys [] = []"
  by (simp add: partitionKeys_def)

lemma partitionKeys_concat: "concat (partitionKeys keys) = keys"
proof (cases "keys = []")
  case True then show ?thesis by (simp add: partitionKeys_Nil)
next
  case False
  from partitionKeys_shape [OF this] show ?thesis by auto
qed

lemma partitionKeys_length:
  "length (partitionKeys keys) = (if keys = [] then 0 else length keys div 49 + 1)"
proof (cases "keys = []")
  case True then show ?thesis by (simp add: partitionKeys_Nil)
next
  case False
  from partitionKeys_shape [OF this] obtain full cur where
    p: "partitionKeys keys = full @ [cur]" and c: "concat (full @ [cur]) = keys"
    and a: "list_all (\<lambda>x. length x = 49) full" and l: "length cur < 49" by blast
  have "length keys = 49 * length full + length cur"
    using c length_concat_full [OF a] by (metis concat_append concat.simps(1,2) length_append append_Nil2)
  then have "length keys div 49 = length full" using l by simp
  with p False show ?thesis by simp
qed

lemma partitionKeys_sizes: "b \<in> set (partitionKeys keys) \<Longrightarrow> length b \<le> 49"
proof (cases "keys = []")
  case True assume "b \<in> set (partitionKeys keys)" with True show ?thesis by (simp add: partitionKeys_Nil)
next
  case False
  assume b: "b \<in> set (partitionKeys keys)"
  from partitionKeys_shape [OF False] obtain full cur where
    p: "partitionKeys keys = full @ [cur]"
    and a: "list_all (\<lambda>x. length x = 49) full" and l: "length cur < 49" by blast
  from b p a l show ?thesis by (auto simp: list_all_iff)
qed

lemma partitionKeys_last_empty:
  "keys \<noteq> [] \<Longrightarrow> length keys mod 49 = 0 \<Longrightarrow> last (partitionKeys keys) = []"
proof -
  assume ne: "keys \<noteq> []" and m: "length keys mod 49 = 0"
  from partitionKeys_shape [OF ne] obtain full cur where
    p: "partitionKeys keys = full @ [cur]" and c: "concat (full @ [cur]) = keys"
    and a: "list_all (\<lambda>x. length x = 49) full" and l: "length cur < 49" by blast
  have "length keys = 49 * length full + length cur"
    using c length_concat_full [OF a] by (metis concat_append concat.simps(1,2) length_append append_Nil2)
  with m l have "length cur = 0" by simp
  with p show ?thesis by simp
qed

text \<open>
  C1 (batch completeness: \<open>ceil(K/49)\<close> batches, none of them empty). The loop pushes
  the next, empty batch as soon as a batch is full, also behind the last key: for 49
  keys it leaves two batches, the 49 keys and an empty one, where the claim has the
  single batch \<open>ceil(49/49) = 1\<close>. The other parts of the claim hold for every key
  list (\<open>partitionKeys_concat\<close>, \<open>partitionKeys_sizes\<close>); \<open>partitionKeys_length\<close> and
  \<open>partitionKeys_last_empty\<close> give the count and the empty batch for every multiple
  of 49.
\<close>

theorem partitionKeys_49_keys:
  "distinct (map decimal [0..<49])
   \<and> partitionKeys (map decimal [0..<49]) = [map decimal [0..<49], []]"
  by code_simp

section \<open>The placeholder codec\<close>

lemma regexScan_text: "tokensText (regexScan m s) = s"
  by (induction m s rule: regexScan.induct) (auto split: option.splits nat.splits)

lemma isDigit_digit: "d < 10 \<Longrightarrow> isDigit (digit d)"
proof -
  assume "d < 10"
  then have "d = 0 \<or> d = 1 \<or> d = 2 \<or> d = 3 \<or> d = 4 \<or> d = 5 \<or> d = 6
    \<or> d = 7 \<or> d = 8 \<or> d = 9" by arith
  then show ?thesis by (elim disjE) (simp_all add: isDigit_def digit_def)
qed

lemma decimal_digits: "list_all isDigit (decimal n) \<and> decimal n \<noteq> []"
proof (induction n rule: decimal.induct)
  case (1 n)
  show ?case
  proof (cases "n < 10")
    case True
    then show ?thesis by (subst (1 2) decimal.simps) (simp add: isDigit_digit)
  next
    case False
    with 1 show ?thesis by (subst (1 2) decimal.simps) (simp add: isDigit_digit)
  qed
qed

lemma not_digit_consts [simp]:
  "\<not> isDigit SLASH" "\<not> isDigit LANGLE" "\<not> isDigit RANGLE" "\<not> isDigit LOWER_T"
  by (simp_all add: isDigit_def SLASH_def LANGLE_def RANGLE_def LOWER_T_def)

lemma langle_consts [simp]:
  "SLASH \<noteq> LANGLE" "RANGLE \<noteq> LANGLE" "LOWER_T \<noteq> LANGLE"
  by (simp_all add: SLASH_def LANGLE_def RANGLE_def LOWER_T_def)

lemma takeWhile_decimal:
  "takeWhile isDigit (decimal i @ SLASH # rest) = decimal i"
proof -
  have "\<And>x. x \<in> set (decimal i) \<Longrightarrow> isDigit x"
    using decimal_digits [of i] by (simp add: list_all_iff)
  then show ?thesis by (simp add: takeWhile_append2)
qed

lemma matchMarker_marker:
  "matchMarker (marker i @ rest) = Some (length (decimal i) + 4)"
  using decimal_digits [of i]
  by (simp add: marker_def takeWhile_decimal)

lemma marker_Cons: "marker i = LANGLE # LOWER_T # decimal i @ [SLASH, RANGLE]"
  by (simp add: marker_def)

lemma length_marker: "length (marker i) = length (decimal i) + 4"
  by (simp add: marker_def)

lemma matchMarker_Some:
  assumes "matchMarker (c # b # r) = Some m"
  shows "c = LANGLE \<and> b = LOWER_T \<and> 0 < length (takeWhile isDigit r)
     \<and> take 2 (drop (length (takeWhile isDigit r)) r) = [SLASH, RANGLE]
     \<and> m = length (takeWhile isDigit r) + 4"
  using assms unfolding matchMarker.simps Let_def
  by (simp split: if_splits)

lemma matchMarker_inside:
  assumes "matchMarker (c # s) = Some (Suc n)"
  shows "n \<le> length s \<and> LANGLE \<notin> set (take n s)"
proof (cases s)
  case Nil
  with assms show ?thesis by simp
next
  case (Cons b r)
  let ?k = "length (takeWhile isDigit r)"
  have m: "matchMarker (c # b # r) = Some (Suc n)"
    using assms unfolding Cons .
  note f = matchMarker_Some [OF m]
  from f have b: "b = LOWER_T" by blast
  from f have t: "take 2 (drop ?k r) = [SLASH, RANGLE]" by blast
  from f have "Suc n = ?k + 4" by blast
  then have n: "n = ?k + 2 + 1" by arith
  from t have "length (take 2 (drop ?k r)) = 2" by simp
  then have len: "?k + 2 \<le> length r" by simp
  have tk: "take ?k r = takeWhile isDigit r"
    by (rule takeWhile_eq_take [symmetric])
  have "take (?k + 2) r = take ?k r @ take 2 (drop ?k r)"
    by (rule take_add)
  then have tr: "take (?k + 2) r = takeWhile isDigit r @ [SLASH, RANGLE]"
    unfolding tk t .
  have dig: "x \<noteq> LANGLE" if "x \<in> set (takeWhile isDigit r)" for x
  proof -
    from that have "isDigit x" by (rule set_takeWhileD [THEN conjunct2])
    then show ?thesis using not_digit_consts(2) by blast
  qed
  have "take n s = LOWER_T # take (?k + 2) r"
    unfolding n Cons b by (simp only: take_Suc_Cons Suc_eq_plus1 [symmetric])
  then have "set (take n s) = insert LOWER_T (set (takeWhile isDigit r) \<union> {SLASH, RANGLE})"
    unfolding tr by simp
  then have "LANGLE \<notin> set (take n s)"
    using dig langle_consts [symmetric] by auto
  moreover have "n \<le> length s" unfolding n Cons using len by simp
  ultimately show ?thesis by simp
qed

lemma replaceTokens_Lits:
  "replaceTokens f i (map Lit ls @ ts) = ls @ replaceTokens f i ts"
  by (induction ls) auto

lemma matches_Lits: "matches (map Lit ls @ ts) = matches ts"
  by (induction ls) auto

lemma lit_prefix:
  "n \<le> length (replaceTokens marker i ts) \<Longrightarrow>
   LANGLE \<notin> set (take n (replaceTokens marker i ts)) \<Longrightarrow>
   \<exists>ls ts'. ts = map Lit ls @ ts' \<and> length ls = n"
proof (induction ts arbitrary: n)
  case Nil
  then show ?case by simp
next
  case (Cons t ts)
  show ?case
  proof (cases n)
    case 0
    then show ?thesis by simp
  next
    case (Suc n')
    show ?thesis
    proof (cases t)
      case (Lit c)
      from Cons.prems Suc Lit have "n' \<le> length (replaceTokens marker i ts)"
        and "LANGLE \<notin> set (take n' (replaceTokens marker i ts))" by auto
      from Cons.IH [OF this] obtain ls ts' where "ts = map Lit ls @ ts'" "length ls = n'"
        by blast
      then have "t # ts = map Lit (c # ls) @ ts' \<and> length (c # ls) = n"
        using Lit Suc by simp
      then show ?thesis by blast
    next
      case (Match x)
      with Cons.prems Suc show ?thesis by (simp add: marker_Cons)
    qed
  qed
qed

text \<open>
  The scan for markers over a key finds at least the markers that normalization put
  in, and when it finds no more than these, it finds exactly these.
\<close>

lemma markers_of_key:
  "length (matches ts) \<le> length (matches (regexScan matchMarker (replaceTokens marker i ts)))
   \<and> (length (matches (regexScan matchMarker (replaceTokens marker i ts))) = length (matches ts)
      \<longrightarrow> replaceTokens f j (regexScan matchMarker (replaceTokens marker i ts))
          = replaceTokens f j ts)"
proof (induction ts arbitrary: i j rule: length_induct)
  case (1 ts)
  show ?case
  proof (cases ts)
    case Nil
    then show ?thesis by simp
  next
    case (Cons t ts')
    show ?thesis
    proof (cases t)
      case (Match x)
      have len: "length ts' < length ts" using Cons by simp
      let ?K = "replaceTokens marker (Suc i) ts'"
      let ?d = "Suc (Suc (Suc (length (decimal i))))"
      have mm: "matchMarker (LANGLE # LOWER_T # decimal i @ SLASH # RANGLE # ?K) = Some (Suc ?d)"
        using matchMarker_marker [of i ?K] by (simp add: marker_Cons)
      have tk: "take ?d (LOWER_T # decimal i @ SLASH # RANGLE # ?K)
          = LOWER_T # decimal i @ [SLASH, RANGLE]" by simp
      have dr: "drop ?d (LOWER_T # decimal i @ SLASH # RANGLE # ?K) = ?K" by simp
      have "regexScan matchMarker (LANGLE # LOWER_T # decimal i @ SLASH # RANGLE # ?K)
          = Match (LANGLE # LOWER_T # decimal i @ [SLASH, RANGLE]) # regexScan matchMarker ?K"
        by (subst regexScan.simps) (simp only: mm option.case nat.case tk dr)
      then have sc: "regexScan matchMarker (replaceTokens marker i ts)
          = Match (marker i) # regexScan matchMarker ?K"
        using Cons Match by (simp add: marker_Cons)
      from 1 [rule_format, OF len, of "Suc i" "Suc j"] sc Cons Match
      show ?thesis by simp
    next
      case (Lit c)
      have len: "length ts' < length ts" using Cons by simp
      let ?K = "replaceTokens marker i ts'"
      show ?thesis
      proof (cases "\<exists>n. matchMarker (c # ?K) = Some (Suc n)")
        case False
        then have "regexScan matchMarker (c # ?K) = Lit c # regexScan matchMarker ?K"
          by (subst regexScan.simps) (auto split: option.splits nat.splits)
        then have sc: "regexScan matchMarker (replaceTokens marker i ts)
            = Lit c # regexScan matchMarker ?K"
          using Cons Lit by simp
        from 1 [rule_format, OF len, of i j] sc Cons Lit show ?thesis by simp
      next
        case True
        then obtain n where n: "matchMarker (c # ?K) = Some (Suc n)" by blast
        from matchMarker_inside [OF n] have "n \<le> length ?K" "LANGLE \<notin> set (take n ?K)"
          by simp_all
        from lit_prefix [OF this] obtain ls rest where
          ts': "ts' = map Lit ls @ rest" and ls: "length ls = n" by blast
        have dr: "drop n ?K = replaceTokens marker i rest"
          using ts' ls by (simp add: replaceTokens_Lits)
        have "regexScan matchMarker (c # ?K)
            = Match (c # take n ?K) # regexScan matchMarker (drop n ?K)"
          by (subst regexScan.simps) (simp only: n option.case nat.case)
        then have sc: "regexScan matchMarker (replaceTokens marker i ts)
            = Match (c # take n ?K) # regexScan matchMarker (replaceTokens marker i rest)"
          using Cons Lit dr by simp
        have len': "length rest < length ts" using ts' Cons by simp
        have mr: "matches ts = matches rest" using Cons Lit ts' by (simp add: matches_Lits)
        from 1 [rule_format, OF len', of i j] sc mr show ?thesis by simp
      qed
    qed
  qed
qed

lemma restore_matches:
  "replaceTokens (storedAt (pre @ matches ts)) (length pre) ts = tokensText ts"
proof (induction ts arbitrary: pre)
  case Nil
  then show ?case by simp
next
  case (Cons t ts)
  show ?case
  proof (cases t)
    case (Lit c)
    with Cons show ?thesis by simp
  next
    case (Match x)
    have ih: "replaceTokens (storedAt (pre @ x # matches ts)) (Suc (length pre)) ts
        = tokensText ts" using Cons.IH [of "pre @ [x]"] by simp
    have "storedAt (pre @ x # matches ts) (length pre) = x" by (simp add: storedAt_def)
    with Match ih show ?thesis by simp
  qed
qed

lemma normalize_Some:
  "normalizeText text = (key, Some ps) \<Longrightarrow>
   key = replaceTokens marker 0 (regexScan matchPlaceholder text)
   \<and> ps = matches (regexScan matchPlaceholder text)"
  by (auto simp: normalizeText_def js_match_def js_replace_def split: list.splits)

lemma normalize_None: "normalizeText text = (key, None) \<Longrightarrow> key = text"
  by (auto simp: normalizeText_def split: option.splits)

lemma restore_normalized:
  assumes "normalizeText text = (key, placeholders)"
    and "\<forall>ps. placeholders = Some ps \<longrightarrow> markerCount key = length ps"
  shows "restorePlaceholders placeholders key placeholders = Inr text"
proof (cases placeholders)
  case None
  with assms(1) show ?thesis by (simp add: restorePlaceholders_def normalize_None)
next
  case (Some ps)
  let ?ts = "regexScan matchPlaceholder text"
  from normalize_Some assms(1) Some have key: "key = replaceTokens marker 0 ?ts"
    and ps: "ps = matches ?ts" by blast+
  from assms(2) Some have "markerCount key = length ps" by simp
  with key ps have "length (matches (regexScan matchMarker (replaceTokens marker 0 ?ts)))
      = length (matches ?ts)" by (simp add: markerCount_def)
  with markers_of_key [of ?ts 0 "storedAt ps" 0]
  have "replaceTokens (storedAt ps) 0 (regexScan matchMarker key)
      = replaceTokens (storedAt ps) 0 ?ts" using key by simp
  also have "\<dots> = tokensText ?ts" using restore_matches [of "[]" ?ts] ps by simp
  also have "\<dots> = text" by (rule regexScan_text)
  finally show ?thesis using Some
    by (simp add: restorePlaceholders_def denormalizeText_def js_replace_def)
qed

text \<open>
  C3 (round trip: restoring the placeholders into the key of a text gives the text
  back). As stated, for every text, it fails: a text may itself contain a marker, as
  \<open><t5/>{{a}}\<close> does, and the restoring step cannot tell it from the markers that
  normalization put in. It holds for every text whose key has as many markers as
  the text has placeholders: restoring the text's own placeholders into the key
  gives the text, and a text without placeholders is not restored at all and comes
  back as it is. So \<open>translate\<close> returns such a text, when it is not empty, in every
  state where \<open>cache\<close> holds the key as its own translation and \<open>placeholderMap\<close>
  holds, under the key, the placeholders of this text.
\<close>

theorem normalize_roundtrip:
  assumes "normalizeText text = (key, placeholders)"
    and "\<forall>ps. placeholders = Some ps \<longrightarrow> markerCount key = length ps"
  shows "restorePlaceholders placeholders key placeholders = Inr text
     \<and> (text \<noteq> [] \<and> propGet (cache st) key = Own key
        \<and> (\<forall>ps. placeholders = Some ps \<longrightarrow> mapGet (placeholderMap st) key = Some ps) \<longrightarrow>
        translate text st = Inr (LString text, st))"
proof (intro conjI impI)
  show r: "restorePlaceholders placeholders key placeholders = Inr text"
    using assms by (rule restore_normalized)
  assume a: "text \<noteq> [] \<and> propGet (cache st) key = Own key
    \<and> (\<forall>ps. placeholders = Some ps \<longrightarrow> mapGet (placeholderMap st) key = Some ps)"
  have "restorePlaceholders placeholders key (mapGet (placeholderMap st) key) = Inr text"
  proof (cases placeholders)
    case None
    with r show ?thesis by (simp add: restorePlaceholders_def)
  next
    case (Some ps)
    with a r show ?thesis by simp
  qed
  with a assms(1) show "translate text st = Inr (LString text, st)"
    by (simp add: translate_def)
qed

theorem normalize_roundtrip_witness:
  "normalizeText (lit ''Hello {{name}}'') = (lit ''Hello <t0/>'', Some [lit ''{{name}}''])
   \<and> markerCount (lit ''Hello <t0/>'') = length [lit ''{{name}}'']
   \<and> restorePlaceholders (Some [lit ''{{name}}'']) (lit ''Hello <t0/>'')
        (Some [lit ''{{name}}'']) = Inr (lit ''Hello {{name}}'')
   \<and> translate (lit ''Hello {{name}}'')
        \<lparr>cache = [(lit ''Hello <t0/>'', lit ''Hello <t0/>'')], totalChars = 11,
         placeholderMap = [(lit ''Hello <t0/>'', [lit ''{{name}}''])]\<rparr>
     = Inr (LString (lit ''Hello {{name}}''),
        \<lparr>cache = [(lit ''Hello <t0/>'', lit ''Hello <t0/>'')], totalChars = 11,
         placeholderMap = [(lit ''Hello <t0/>'', [lit ''{{name}}''])]\<rparr>)"
proof -
  let ?st = "\<lparr>cache = [(lit ''Hello <t0/>'', lit ''Hello <t0/>'')], totalChars = 11,
         placeholderMap = [(lit ''Hello <t0/>'', [lit ''{{name}}''])]\<rparr>"
  have n: "normalizeText (lit ''Hello {{name}}'')
      = (lit ''Hello <t0/>'', Some [lit ''{{name}}''])" by code_simp
  have c: "markerCount (lit ''Hello <t0/>'') = length [lit ''{{name}}'']" by code_simp
  then have h: "\<forall>ps. Some [lit ''{{name}}''] = Some ps \<longrightarrow>
      markerCount (lit ''Hello <t0/>'') = length ps" by simp
  have t: "lit ''Hello {{name}}'' \<noteq> []" by (simp add: lit_def)
  have g: "propGet (cache ?st) (lit ''Hello <t0/>'') = Own (lit ''Hello <t0/>'')" by code_simp
  have m: "mapGet (placeholderMap ?st) (lit ''Hello <t0/>'') = Some [lit ''{{name}}'']"
    by code_simp
  from normalize_roundtrip [OF n h, of ?st] n c t g m show ?thesis by simp
qed

theorem roundtrip_literal_marker_counterexample:
  "normalizeText (lit ''<t5/>{{a}}'') = (lit ''<t5/><t0/>'', Some [lit ''{{a}}''])
   \<and> restorePlaceholders (Some [lit ''{{a}}'']) (lit ''<t5/><t0/>'') (Some [lit ''{{a}}''])
     = Inr (lit ''{{a}}undefined'')
   \<and> lit ''{{a}}undefined'' \<noteq> lit ''<t5/>{{a}}''
   \<and> markerCount (lit ''<t5/><t0/>'') = 2"
  by code_simp

section \<open>Restoring with a list of another length\<close>

lemma replaceTokens_cong:
  "(\<And>j. i \<le> j \<Longrightarrow> j < i + length (matches ts) \<Longrightarrow> f j = g j) \<Longrightarrow>
   replaceTokens f i ts = replaceTokens g i ts"
proof (induction ts arbitrary: i)
  case Nil
  then show ?case by simp
next
  case (Cons t ts)
  show ?case
  proof (cases t)
    case (Lit c)
    have "replaceTokens f i ts = replaceTokens g i ts"
      by (rule Cons.IH) (use Cons.prems Lit in auto)
    with Lit show ?thesis by simp
  next
    case (Match x)
    have "replaceTokens f (Suc i) ts = replaceTokens g (Suc i) ts"
      by (rule Cons.IH) (use Cons.prems Match in auto)
    moreover have "f i = g i" using Cons.prems [of i] Match by simp
    ultimately show ?thesis using Match by simp
  qed
qed

lemma storedAt_take:
  "j < n \<Longrightarrow> storedAt (take n stored) j = storedAt stored j"
  by (simp add: storedAt_def)

lemma storedAt_pad:
  "storedAt (stored @ replicate n (lit ''undefined'')) j = storedAt stored j"
  by (simp add: storedAt_def nth_append)

lemma translate_Own:
  assumes "text \<noteq> []" "normalizeText text = (key, Some original)"
    and "propGet (cache st) key = Own translated"
    and "mapGet (placeholderMap st) key = Some stored"
  shows "translate text st
     = Inr (LString (js_replace matchMarker (storedAt stored) translated), st)"
  using assms by (simp add: translate_def restorePlaceholders_def denormalizeText_def)

text \<open>
  C5 (a translated text with another number of markers than stored placeholders is
  detected and ends in an error). Nothing in \<open>translate\<close> compares the two numbers,
  and no error arises: for every text with placeholders whose key is resolved,
  \<open>translate\<close> returns a text. Stored placeholders beyond the number of markers are
  not used, and a marker beyond the number of stored placeholders is replaced by the
  text \<open>undefined\<close>.
\<close>

theorem translate_marker_mismatch_silent:
  assumes "text \<noteq> []" "normalizeText text = (key, Some original)"
    and "propGet (cache st) key = Own translated"
    and "mapGet (placeholderMap st) key = Some stored"
  shows "translate text st
       = Inr (LString (js_replace matchMarker (storedAt stored) translated), st)
     \<and> js_replace matchMarker (storedAt stored) translated
         = js_replace matchMarker (storedAt (take (markerCount translated) stored)) translated
     \<and> js_replace matchMarker (storedAt stored) translated
         = js_replace matchMarker
             (storedAt (stored @ replicate (markerCount translated - length stored)
                (lit ''undefined''))) translated"
proof (intro conjI)
  show "translate text st
      = Inr (LString (js_replace matchMarker (storedAt stored) translated), st)"
    using assms by (rule translate_Own)
next
  show "js_replace matchMarker (storedAt stored) translated
      = js_replace matchMarker (storedAt (take (markerCount translated) stored)) translated"
    unfolding js_replace_def
    by (rule replaceTokens_cong) (simp add: storedAt_take markerCount_def)
next
  show "js_replace matchMarker (storedAt stored) translated
      = js_replace matchMarker
          (storedAt (stored @ replicate (markerCount translated - length stored)
             (lit ''undefined''))) translated"
    unfolding js_replace_def
    by (rule replaceTokens_cong) (simp add: storedAt_pad)
qed

theorem translate_marker_mismatch_silent_witness:
  "lit ''Hi {{a}}'' \<noteq> []
   \<and> normalizeText (lit ''Hi {{a}}'') = (lit ''Hi <t0/>'', Some [lit ''{{a}}''])
   \<and> translate (lit ''Hi {{a}}'')
        \<lparr>cache = [(lit ''Hi <t0/>'', lit ''<t0/> <t1/>'')], totalChars = 8,
         placeholderMap = [(lit ''Hi <t0/>'', [lit ''{{a}}''])]\<rparr>
     = Inr (LString (lit ''{{a}} undefined''),
        \<lparr>cache = [(lit ''Hi <t0/>'', lit ''<t0/> <t1/>'')], totalChars = 8,
         placeholderMap = [(lit ''Hi <t0/>'', [lit ''{{a}}''])]\<rparr>)"
proof -
  let ?st = "\<lparr>cache = [(lit ''Hi <t0/>'', lit ''<t0/> <t1/>'')], totalChars = 8,
         placeholderMap = [(lit ''Hi <t0/>'', [lit ''{{a}}''])]\<rparr>"
  have t: "lit ''Hi {{a}}'' \<noteq> []" by (simp add: lit_def)
  have n: "normalizeText (lit ''Hi {{a}}'') = (lit ''Hi <t0/>'', Some [lit ''{{a}}''])"
    by code_simp
  have g: "propGet (cache ?st) (lit ''Hi <t0/>'') = Own (lit ''<t0/> <t1/>'')" by code_simp
  have m: "mapGet (placeholderMap ?st) (lit ''Hi <t0/>'') = Some [lit ''{{a}}'']" by code_simp
  have r: "js_replace matchMarker (storedAt [lit ''{{a}}'']) (lit ''<t0/> <t1/>'')
      = lit ''{{a}} undefined''" by code_simp
  from translate_marker_mismatch_silent [OF t n g m] t n r show ?thesis by simp
qed

theorem translate_marker_mismatch_counterexample:
  "translate (lit ''Hello {{name}}'')
        \<lparr>cache = [(lit ''Hello <t0/>'', lit ''Bonjour'')], totalChars = 11,
         placeholderMap = [(lit ''Hello <t0/>'', [lit ''{{name}}''])]\<rparr>
     = Inr (LString (lit ''Bonjour''),
        \<lparr>cache = [(lit ''Hello <t0/>'', lit ''Bonjour'')], totalChars = 11,
         placeholderMap = [(lit ''Hello <t0/>'', [lit ''{{name}}''])]\<rparr>)
   \<and> markerCount (lit ''Bonjour'') = 0"
  by code_simp

section \<open>Normalization against the specification\<close>

lemma spec_body_lazyClose:
  "lazyClose s = map_option (\<lambda>b. length b + 2) (spec_body (\<lambda>c. \<not> isLineTerminator c) s)"
proof (induction s rule: lazyClose.induct)
  case 1
  then show ?case by simp
next
  case (2 c)
  then show ?case by simp
next
  case (3 c d cs)
  then show ?case
    by (cases "spec_body (\<lambda>c. \<not> isLineTerminator c) (d # cs)") auto
qed

lemma spec_body_prefix: "spec_body anyChar s = Some b \<Longrightarrow> b = take (length b) s"
proof (induction s arbitrary: b)
  case Nil
  then show ?case by simp
next
  case (Cons c cs)
  then show ?case by (auto split: if_splits)
qed

lemma spec_body_length: "spec_body anyChar s = Some b \<Longrightarrow> length b + 2 \<le> length s"
proof (induction s arbitrary: b)
  case Nil
  then show ?case by simp
next
  case (Cons c cs)
  show ?case
  proof (cases "take 2 (c # cs) = [RBRACE, RBRACE]")
    case True
    then have "length (take 2 (c # cs)) = 2" by simp
    then have "2 \<le> length (c # cs)" by simp
    with Cons.prems True show ?thesis by simp
  next
    case False
    with Cons show ?thesis by (auto split: if_splits)
  qed
qed

text \<open>What the expression matches at the head of a text is the specification's placeholder there.\<close>

lemma matchPlaceholder_spec:
  "matchPlaceholder s = map_option length (spec_placeholderAt (\<lambda>c. \<not> isLineTerminator c) s)"
proof (cases s)
  case Nil
  then show ?thesis by (simp add: spec_placeholderAt_def)
next
  case (Cons a s')
  show ?thesis
  proof (cases s')
    case Nil
    with Cons show ?thesis by (simp add: spec_placeholderAt_def)
  next
    case (Cons b r)
    with \<open>s = a # s'\<close> show ?thesis
      by (simp add: spec_placeholderAt_def spec_body_lazyClose option.map_comp comp_def)
  qed
qed

lemma spec_body_closed:
  "spec_body anyChar s = Some b \<Longrightarrow> b @ [RBRACE, RBRACE] = take (length b + 2) s"
proof (induction s arbitrary: b)
  case Nil
  then show ?case by simp
next
  case (Cons c cs)
  show ?case
  proof (cases "take 2 (c # cs) = [RBRACE, RBRACE]")
    case True
    with Cons.prems show ?thesis by simp
  next
    case False
    with Cons.prems obtain b' where b': "spec_body anyChar cs = Some b'" and b: "b = c # b'"
      by (auto split: if_splits)
    from Cons.IH [OF b'] b show ?thesis by simp
  qed
qed

lemma spec_placeholderAt_prefix:
  assumes "spec_placeholderAt anyChar s = Some p"
  shows "p = take (length p) s \<and> 0 < length p"
proof -
  from assms obtain body where t: "take 2 s = [LBRACE, LBRACE]"
    and b: "spec_body anyChar (drop 2 s) = Some body"
    and p: "p = [LBRACE, LBRACE] @ body @ [RBRACE, RBRACE]"
    by (auto simp: spec_placeholderAt_def split: if_splits)
  have "take (2 + (length body + 2)) s = take 2 s @ take (length body + 2) (drop 2 s)"
    by (rule take_add)
  also have "\<dots> = [LBRACE, LBRACE] @ body @ [RBRACE, RBRACE]"
    unfolding t spec_body_closed [OF b, symmetric] ..
  finally have "take (length p) s = p" unfolding p by (simp add: add.commute)
  then show ?thesis using p by simp
qed

lemma spec_scan_skip: "spec_scan anyChar i k s = spec_scan anyChar i 0 (drop k s)"
proof (induction s arbitrary: k)
  case Nil
  then show ?case by simp
next
  case (Cons c cs)
  then show ?case by (cases k) simp_all
qed

text \<open>The one pass of the specification gives what the two scans of the program give.\<close>

lemma spec_scan_regexScan:
  "spec_scan (\<lambda>c. \<not> isLineTerminator c) i 0 s
   = (replaceTokens marker i (regexScan matchPlaceholder s),
      matches (regexScan matchPlaceholder s))"
proof (induction s arbitrary: i rule: length_induct)
  case (1 s)
  show ?case
  proof (cases s)
    case Nil
    then show ?thesis by simp
  next
    case (Cons c cs)
    show ?thesis
    proof (cases "spec_placeholderAt (\<lambda>c. \<not> isLineTerminator c) (c # cs)")
      case None
      then have m: "matchPlaceholder (c # cs) = None" by (simp add: matchPlaceholder_spec)
      have sc: "regexScan matchPlaceholder (c # cs) = Lit c # regexScan matchPlaceholder cs"
        by (subst regexScan.simps) (simp only: m option.case)
      have "length cs < length s" using Cons by simp
      from 1 [rule_format, OF this, of i] None sc Cons show ?thesis by simp
    next
      case (Some p)
      from spec_placeholderAt_prefix [OF Some]
      have pp: "p = take (length p) (c # cs)" and "0 < length p" by simp_all
      then obtain n where n: "length p = Suc n" by (cases "length p") auto
      have "take (Suc n) (c # cs) = c # take n cs" by simp
      with pp n have p: "p = c # take n cs" by simp
      have m: "matchPlaceholder (c # cs) = Some (Suc n)"
        using Some n by (simp add: matchPlaceholder_spec)
      have sc: "regexScan matchPlaceholder (c # cs)
          = Match (c # take n cs) # regexScan matchPlaceholder (drop n cs)"
        by (subst regexScan.simps) (simp only: m option.case nat.case)
      have "length (drop n cs) < length s" using Cons by simp
      from 1 [rule_format, OF this, of "Suc i"]
      have ih: "spec_scan (\<lambda>c. \<not> isLineTerminator c) (Suc i) n cs
          = (replaceTokens marker (Suc i) (regexScan matchPlaceholder (drop n cs)),
             matches (regexScan matchPlaceholder (drop n cs)))"
        by (subst spec_scan_skip) simp
      show ?thesis
        unfolding Cons sc using Some n p ih by simp
    qed
  qed
qed

lemma replaceTokens_no_match: "matches ts = [] \<Longrightarrow> replaceTokens f i ts = tokensText ts"
proof (induction ts)
  case Nil
  then show ?case by simp
next
  case (Cons t ts)
  then show ?case by (cases t) simp_all
qed

lemma normalize_tokens:
  "normalizeText text =
     (case matches (regexScan matchPlaceholder text) of
        [] \<Rightarrow> (text, None)
      | x # xs \<Rightarrow> (replaceTokens marker 0 (regexScan matchPlaceholder text), Some (x # xs)))"
  by (simp add: normalizeText_def js_match_def js_replace_def split: list.splits)

text \<open>
  C8 (normalization replaces the matches of \<open>{{\<close>, any characters, \<open>}}\<close> by numbered
  markers and returns the matched substrings; a text without a match is its own key).
  The expression of the program is \<open>/\{\{.*?\}\}/g\<close>, whose \<open>.\<close> does not match a line
  terminator: \<open>{{a\<close>, line feed, \<open>b}}\<close> is a placeholder for the specification and
  none for the program. With "any characters but line terminators" the program
  computes what the specification says, for every text.
\<close>

theorem normalize_refines_spec:
  "(fst (normalizeText text), placeholderList (snd (normalizeText text)))
     = spec_normalize (\<lambda>c. \<not> isLineTerminator c) text
   \<and> (snd (spec_normalize (\<lambda>c. \<not> isLineTerminator c) text) = [] \<longrightarrow>
        normalizeText text = (text, None))"
proof -
  let ?ts = "regexScan matchPlaceholder text"
  have sp: "spec_normalize (\<lambda>c. \<not> isLineTerminator c) text
      = (replaceTokens marker 0 ?ts, matches ?ts)"
    by (simp add: spec_normalize_def spec_scan_regexScan)
  show ?thesis
  proof (cases "matches ?ts")
    case Nil
    then have "replaceTokens marker 0 ?ts = text"
      by (simp add: replaceTokens_no_match regexScan_text)
    with Nil sp show ?thesis by (simp add: normalize_tokens)
  next
    case (Cons x xs)
    with sp show ?thesis by (simp add: normalize_tokens)
  qed
qed

theorem normalize_refines_spec_witness:
  "(fst (normalizeText (lit ''bye'')), placeholderList (snd (normalizeText (lit ''bye''))))
     = spec_normalize (\<lambda>c. \<not> isLineTerminator c) (lit ''bye'')
   \<and> snd (spec_normalize (\<lambda>c. \<not> isLineTerminator c) (lit ''bye'')) = []
   \<and> normalizeText (lit ''bye'') = (lit ''bye'', None)"
proof -
  have e: "snd (spec_normalize (\<lambda>c. \<not> isLineTerminator c) (lit ''bye'')) = []"
    by code_simp
  from normalize_refines_spec [of "lit ''bye''"] e show ?thesis by blast
qed

theorem normalize_line_terminator_counterexample:
  "normalizeText (lit ''{{a'' @ [0x0A] @ lit ''b}}'') = (lit ''{{a'' @ [0x0A] @ lit ''b}}'', None)
   \<and> spec_normalize (\<lambda>c. True) (lit ''{{a'' @ [0x0A] @ lit ''b}}'')
     = (lit ''<t0/>'', [lit ''{{a'' @ [0x0A] @ lit ''b}}''])"
  by code_simp

section \<open>Reads and writes of properties\<close>

lemma map_of_insertIndex:
  "map_of ps k = None \<Longrightarrow> map_of (insertIndex n k v ps) = (map_of ps)(k \<mapsto> v)"
proof (induction ps)
  case Nil
  then show ?case by simp
next
  case (Cons a ps)
  obtain k' v' where a: "a = (k', v')" by (cases a)
  from Cons.prems a have ne: "k' \<noteq> k" and n: "map_of ps k = None"
    by (auto split: if_splits)
  from Cons.IH [OF n] a ne show ?case by (auto simp: fun_upd_twist)
qed

lemma map_of_update_all:
  "map_of (map (\<lambda>(k', v'). if k' = k then (k', v) else (k', v')) ps) x
     = (if x = k then (if map_of ps k = None then None else Some v) else map_of ps x)"
  by (induction ps) auto

lemma map_of_snoc:
  "map_of ps k = None \<Longrightarrow> map_of (ps @ [(k, v)]) = (map_of ps)(k \<mapsto> v)"
  by (auto simp: fun_eq_iff map_add_def split: option.splits)

lemma map_of_propSet:
  "map_of (propSet ps k v) x =
     (if k = lit ''__proto__'' then map_of ps x else ((map_of ps)(k \<mapsto> v)) x)"
proof (cases "k = lit ''__proto__''")
  case True
  then show ?thesis by (simp add: propSet_def)
next
  case False
  show ?thesis
  proof (cases "map_of ps k = None")
    case True
    with False show ?thesis
      by (simp add: propSet_def map_of_insertIndex map_of_snoc del: map_of_append)
  next
    case n: False
    with False show ?thesis
      by (auto simp: propSet_def map_of_update_all)
  qed
qed

lemma propGet_propSet:
  "propGet (propSet ps k v) k' =
     (if k' = k \<and> k \<noteq> lit ''__proto__'' then Own v else propGet ps k')"
  by (simp add: propGet_def map_of_propSet)


section \<open>The answer of a batch\<close>

lemma resolveBatch_other:
  "(\<And>j. i \<le> j \<Longrightarrow> j < i + length response \<Longrightarrow> batchKey batch j \<noteq> k) \<Longrightarrow>
   propGet (resolveBatch batch i response c) k = propGet c k"
proof (induction response arbitrary: i c)
  case Nil
  then show ?case by simp
next
  case (Cons res response)
  have "propGet (resolveBatch batch (Suc i) response (propSet c (batchKey batch i) res)) k
      = propGet (propSet c (batchKey batch i) res) k"
    by (rule Cons.IH) (use Cons.prems in auto)
  moreover have "batchKey batch i \<noteq> k" using Cons.prems [of i] by simp
  ultimately show ?case by (simp add: propGet_propSet)
qed

lemma resolveBatch_at:
  assumes "i \<le> p" "p < i + length response" "batchKey batch p = k" "k \<noteq> lit ''__proto__''"
    and "\<And>j. p < j \<Longrightarrow> j < i + length response \<Longrightarrow> batchKey batch j \<noteq> k"
  shows "propGet (resolveBatch batch i response c) k = Own (response ! (p - i))"
  using assms
proof (induction response arbitrary: i c)
  case Nil
  then show ?case by simp
next
  case (Cons res response)
  show ?case
  proof (cases "p = i")
    case True
    have "propGet (resolveBatch batch (Suc i) response (propSet c (batchKey batch i) res)) k
        = propGet (propSet c (batchKey batch i) res) k"
      by (rule resolveBatch_other) (use Cons.prems True in auto)
    with True Cons.prems show ?thesis by (simp add: propGet_propSet)
  next
    case False
    with Cons.prems have "Suc i \<le> p" "p < Suc i + length response" by simp_all
    from Cons.IH [OF this Cons.prems(3,4)] Cons.prems(5)
    have "propGet (resolveBatch batch (Suc i) response (propSet c (batchKey batch i) res)) k
        = Own (response ! (p - Suc i))" by simp
    moreover from False Cons.prems have "(res # response) ! (p - i) = response ! (p - Suc i)"
      by (simp add: nth_Cons')
    ultimately show ?thesis by simp
  qed
qed

text \<open>
  C6 (response item \<open>i\<close> resolves key \<open>i\<close> of the batch, and a response of another
  length than the batch is a fatal error). The positional part holds; the lengths
  are never compared and no error arises. For every batch and every response: the
  submission succeeds; a key of a batch of distinct keys at a position below the
  response's length is resolved to the item at that position (when the response is
  longer than the batch, its surplus items are stored under the key \<open>undefined\<close>,
  so this key must not be the one looked at); a key at a position from the
  response's length on keeps the value it had. The keys of a batch are own keys of
  \<open>cache\<close>, so none is \<open>__proto__\<close>.
\<close>

theorem resolveBatch_positional:
  assumes "translateText batch = Inr response"
  shows "submitBatches translateText [batch] st
           = Inr (st\<lparr>cache := resolveBatch batch 0 response (cache st)\<rparr>)
     \<and> (distinct batch \<and> p < length batch \<and> batch ! p \<noteq> lit ''__proto__'' \<longrightarrow>
          (p < length response
             \<and> (length response \<le> length batch \<or> batch ! p \<noteq> lit ''undefined'') \<longrightarrow>
           propGet (resolveBatch batch 0 response (cache st)) (batch ! p) = Own (response ! p))
        \<and> (length response \<le> p \<longrightarrow>
           propGet (resolveBatch batch 0 response (cache st)) (batch ! p)
             = propGet (cache st) (batch ! p)))"
proof (intro conjI impI)
  show "submitBatches translateText [batch] st
      = Inr (st\<lparr>cache := resolveBatch batch 0 response (cache st)\<rparr>)"
    using assms by simp
next
  assume a: "distinct batch \<and> p < length batch \<and> batch ! p \<noteq> lit ''__proto__''"
    and b: "p < length response
      \<and> (length response \<le> length batch \<or> batch ! p \<noteq> lit ''undefined'')"
  have later: "batchKey batch j \<noteq> batch ! p" if "p < j" "j < 0 + length response" for j
  proof (cases "j < length batch")
    case True
    with a that have "batch ! j \<noteq> batch ! p" by (auto simp: nth_eq_iff_index_eq)
    with True show ?thesis by (simp add: batchKey_def)
  next
    case False
    with that b have "batch ! p \<noteq> lit ''undefined''" by auto
    with False show ?thesis by (auto simp: batchKey_def)
  qed
  have "propGet (resolveBatch batch 0 response (cache st)) (batch ! p)
      = Own (response ! (p - 0))"
    by (rule resolveBatch_at [where p = p]) (use a b later in \<open>auto simp: batchKey_def\<close>)
  then show "propGet (resolveBatch batch 0 response (cache st)) (batch ! p) = Own (response ! p)"
    by simp
next
  assume a: "distinct batch \<and> p < length batch \<and> batch ! p \<noteq> lit ''__proto__''"
    and b: "length response \<le> p"
  have "batchKey batch j \<noteq> batch ! p" if "0 \<le> j" "j < 0 + length response" for j
  proof -
    from that b a have "j < length batch" "j \<noteq> p" by simp_all
    with a have "batch ! j \<noteq> batch ! p" by (auto simp: nth_eq_iff_index_eq)
    with \<open>j < length batch\<close> show ?thesis by (simp add: batchKey_def)
  qed
  then show "propGet (resolveBatch batch 0 response (cache st)) (batch ! p)
      = propGet (cache st) (batch ! p)"
    by (rule resolveBatch_other)
qed

theorem resolveBatch_positional_witness:
  "distinct [lit ''a''] \<and> lit ''a'' \<noteq> lit ''__proto__''
   \<and> submitBatches (\<lambda>batch. Inr [lit ''x'']) [[lit ''a'']]
        \<lparr>cache = [(lit ''a'', [])], totalChars = 1, placeholderMap = []\<rparr>
      = Inr \<lparr>cache = [(lit ''a'', lit ''x'')], totalChars = 1, placeholderMap = []\<rparr>
   \<and> propGet (resolveBatch [lit ''a''] 0 [lit ''x''] [(lit ''a'', [])]) (lit ''a'')
      = Own (lit ''x'')"
proof -
  let ?st = "\<lparr>cache = [(lit ''a'', [])], totalChars = 1, placeholderMap = []\<rparr>"
  have ne: "lit ''a'' \<noteq> lit ''__proto__''" by (simp add: lit_def)
  have r: "resolveBatch [lit ''a''] 0 [lit ''x''] [(lit ''a'', [])] = [(lit ''a'', lit ''x'')]"
    by code_simp
  from resolveBatch_positional [where translateText = "\<lambda>batch. Inr [lit ''x'']"
      and batch = "[lit ''a'']" and response = "[lit ''x'']" and st = ?st and p = 0] ne r
  show ?thesis by simp
qed

theorem response_length_unchecked_counterexample:
  "submitBatches (\<lambda>batch. Inr []) [[lit ''a'']]
        \<lparr>cache = [(lit ''a'', [])], totalChars = 1, placeholderMap = []\<rparr>
      = Inr \<lparr>cache = [(lit ''a'', [])], totalChars = 1, placeholderMap = []\<rparr>
   \<and> submitBatches (\<lambda>batch. Inr [lit ''x'', lit ''y'']) [[lit ''a'']]
        \<lparr>cache = [(lit ''a'', [])], totalChars = 1, placeholderMap = []\<rparr>
      = Inr \<lparr>cache = [(lit ''a'', lit ''x''), (lit ''undefined'', lit ''y'')],
             totalChars = 1, placeholderMap = []\<rparr>"
  by code_simp

section \<open>The lookup of translate\<close>













section \<open>The walk over the tree\<close>

lemma insertIndex_last:
  "list_all (\<lambda>k'. isArrayIndex k' \<and> indexValue k' < n) (map fst ps) \<Longrightarrow>
   insertIndex n k v ps = ps @ [(k, v)]"
  by (induction ps) auto

lemma propSet_new_key:
  assumes "keyFits (map fst ps) k" "k \<noteq> lit ''__proto__''"
  shows "propSet ps k v = ps @ [(k, v)]"
proof -
  from assms(1) have "k \<notin> fst ` set ps" by (simp add: keyFits_def)
  then have n: "map_of ps k = None" by (simp add: map_of_eq_None_iff)
  show ?thesis
  proof (cases "isArrayIndex k")
    case True
    with assms(1) have "list_all (\<lambda>k'. isArrayIndex k' \<and> indexValue k' < indexValue k)
        (map fst ps)" by (simp add: keyFits_def)
    from insertIndex_last [OF this] True n assms(2) show ?thesis by (simp add: propSet_def)
  next
    case False
    with n assms(2) show ?thesis by (simp add: propSet_def)
  qed
qed

lemma traverse_identity:
  "plainJSON (v :: 'n jsvalue) \<longrightarrow> traverseJSON False identityAction v st = Inr (v, st)"
  "plainElems (xs :: 'n jsvalue list) \<longrightarrow>
     traverseElems False identityAction xs st = Inr (xs, st)"
  "plainProps (ps :: (jsstring \<times> 'n jsvalue) list) \<and> keysInOrder (map fst new) (map fst ps)
     \<and> lit ''__proto__'' \<notin> set (map fst ps) \<longrightarrow>
   traverseProps False identityAction ps new st = Inr (new @ ps, st)"
proof (induction v and xs and ps arbitrary: st and st and new st
    rule: plainJSON_plainElems_plainProps.induct)
  case (1 xs)
  then show ?case by simp
next
  case (2 ps)
  from 2 [of "[]" st] show ?case by simp
next
  case (11 k v ps)
  show ?case
  proof (intro impI)
    assume a: "plainProps ((k, v) # ps) \<and> keysInOrder (map fst new) (map fst ((k, v) # ps))
      \<and> lit ''__proto__'' \<notin> set (map fst ((k, v) # ps))"
    then have pv: "plainJSON v" and pp: "plainProps ps"
      and kf: "keyFits (map fst new) k"
      and ko: "keysInOrder (map fst (new @ [(k, v)])) (map fst ps)"
      and np: "k \<noteq> lit ''__proto__''" "lit ''__proto__'' \<notin> set (map fst ps)"
      by auto
    have s: "propSet new k v = new @ [(k, v)]" using kf np(1) by (rule propSet_new_key)
    from 11(1) pv have "traverseJSON False identityAction v st = Inr (v, st)" by simp
    moreover from 11(2) [of "new @ [(k, v)]" st] pp ko np(2)
    have "traverseProps False identityAction ps (new @ [(k, v)]) st
        = Inr ((new @ [(k, v)]) @ ps, st)" by simp
    ultimately show "traverseProps False identityAction ((k, v) # ps) new st
        = Inr (new @ (k, v) # ps, st)" using s by simp
  qed
qed (simp_all add: identityAction_def)

lemma traverseJSON_identity:
  "plainJSON v \<Longrightarrow> traverseJSON False identityAction v st = Inr (v, st)"
  using traverse_identity(1) by blast

lemma traverseJSON_scalars:
  "traverseJSON translateProperties act JNull st = Inr (JNull, st)"
  "traverseJSON translateProperties act (JBool b) st = Inr (JBool b, st)"
  "traverseJSON translateProperties act (JNumber n) st = Inr (JNumber n, st)"
  by simp_all


text \<open>
  With key translation on, the key of a rebuilt property is what \<open>translate\<close> returns
  for it, whatever the action of the walk is.
\<close>

lemma traverseJSON_key_through_translate:
  "traverseJSON True act (JObject [(key, JNull)]) st =
     (case translate key st of
        Inl e \<Rightarrow> Inl e
      | Inr (translatedKey, st1) \<Rightarrow>
          Inr (JObject (propSet [] (toPropertyKey translatedKey) JNull), st1))"
  by (simp split: sum.splits prod.splits)

text \<open>
  C2 (with key translation on, an object key goes through the leaf action of the
  walk). \<open>traverseJSON\<close> passes the key to \<open>translate\<close> whatever the action is. In the
  collecting walk, whose action is \<open>addEntry\<close>, the key \<open>a\<close> of \<open>{"a": "x"}\<close> is
  therefore looked up in the still empty cache, and the walk throws instead of
  recording the key (for every action: \<open>traverseJSON_key_through_translate\<close>).
\<close>

theorem traverseJSON_key_not_recorded:
  "traverseJSON True addEntry (JObject [(lit ''a'', JString (lit ''x''))] :: int jsvalue)
     initialState
   = Inl (EntryNotFound (lit ''a''))"
  by code_simp

lemma propSet_keys_known:
  "map_of ps k \<noteq> None \<Longrightarrow> map fst (propSet ps k v) = map fst ps"
  by (auto simp: propSet_def)

lemma mapGet_mapSet: "mapGet (mapSet m k v) k = Some v"
proof (cases "map_of m k = None")
  case True
  then show ?thesis by (simp add: mapGet_def mapSet_def map_add_def)
next
  case False
  then show ?thesis by (simp add: mapGet_def mapSet_def map_of_update_all)
qed

text \<open>
  What \<open>addEntry\<close> does with a text whose key is already in the cache and not yet
  resolved: the keys of the cache stay as they are, but the length of the key is
  added to \<open>totalChars\<close> once more, and the placeholders of this text replace the
  ones stored for the key.
\<close>

lemma addEntry_known_key:
  assumes "text \<noteq> []" "normalizeText text = (key, placeholders)"
    and "propGet (cache st) key = Own []"
  shows "\<exists>st'. addEntry text st = Inr (LString text, st')
     \<and> map fst (cache st') = map fst (cache st)
     \<and> totalChars st' = totalChars st + length key
     \<and> (\<forall>ps. placeholders = Some ps \<longrightarrow> mapGet (placeholderMap st') key = Some ps)"
proof -
  from assms(3) have n: "map_of (cache st) key \<noteq> None"
    by (auto simp: propGet_def split: option.splits if_splits)
  have k: "key = text" if "placeholders = None"
    using assms(2) that by (auto simp: normalizeText_def split: option.splits)
  show ?thesis
  proof (cases placeholders)
    case None
    with assms k n show ?thesis
      by (simp add: addEntry_def propSet_keys_known)
  next
    case (Some ps)
    with assms n show ?thesis
      by (simp add: addEntry_def propSet_keys_known mapGet_mapSet)
  qed
qed

text \<open>
  C4 (a string at several leaves: one cache entry, and inserting a known key again
  changes nothing, the character total included). While the tree is collected the
  entry of a known key holds the empty string, which is falsy, so the guard
  \<open>!cache[text]\<close> of \<open>addEntry\<close> holds again at every further occurrence: the cache
  keeps its single entry, but \<open>totalChars\<close> grows each time (\<open>addEntry_known_key\<close>).
  Three leaves \<open>dup\<close> give the total 9, not 3.
\<close>

theorem addEntry_counts_duplicates:
  "traverseJSON False addEntry
     (JArray [JString (lit ''dup''), JString (lit ''dup''), JString (lit ''dup'')] :: int jsvalue)
     initialState
   = Inr (JArray [JString (lit ''dup''), JString (lit ''dup''), JString (lit ''dup'')],
          \<lparr>cache = [(lit ''dup'', [])], totalChars = 9, placeholderMap = []\<rparr>)"
  by code_simp

text \<open>
  C9 (the walk with an identity action returns a value equal to its input). The
  rebuilt object gets its properties by assignment, and the assignment of the key
  \<open>__proto__\<close> creates no property: the object \<open>{"__proto__": "x"}\<close> comes back
  empty. With key translation on, the keys go through \<open>translate\<close>, not the action, and the
  walk of \<open>{"a": null}\<close> throws. For every value without the key \<open>__proto__\<close>, walked
  with key translation off, the claim holds (\<open>traverseJSON_identity\<close>), and no
  number, boolean or \<open>null\<close> ever reaches an action (\<open>traverseJSON_scalars\<close>).
\<close>

theorem traverseJSON_identity_loses_proto:
  "traverseJSON False identityAction
     (JObject [(lit ''__proto__'', JString (lit ''x''))] :: int jsvalue) initialState
   = Inr (JObject [], initialState)
   \<and> traverseJSON True identityAction
     (JObject [(lit ''a'', JNull)] :: int jsvalue) initialState
   = Inl (EntryNotFound (lit ''a''))"
  by code_simp

text \<open>
  C10 (two texts with one key: the placeholders of the first text are kept). The
  unresolved entry of the key holds the empty string, which is falsy, so the guard of
  \<open>addEntry\<close> holds for the second text as well (\<open>addEntry_known_key\<close>), and
  \<open>placeholderMap.set\<close> overwrites the list of the first: after
  \<open>Hi {{a}}\<close> and \<open>Hi {{b}}\<close> the map holds \<open>{{b}}\<close>. Once the one batch is
  answered with \<open>Salut <t0/>\<close>, both leaves become \<open>Salut {{b}}\<close>.
\<close>

theorem placeholders_of_last_text_win:
  "traverseJSON False addEntry
     (JArray [JString (lit ''Hi {{a}}''), JString (lit ''Hi {{b}}'')] :: int jsvalue)
     initialState
   = Inr (JArray [JString (lit ''Hi {{a}}''), JString (lit ''Hi {{b}}'')],
          \<lparr>cache = [(lit ''Hi <t0/>'', [])], totalChars = 16,
           placeholderMap = [(lit ''Hi <t0/>'', [lit ''{{b}}''])]\<rparr>)
   \<and> submitBatches (\<lambda>batch. Inr [lit ''Salut <t0/>'']) (partitionKeys [lit ''Hi <t0/>''])
       \<lparr>cache = [(lit ''Hi <t0/>'', [])], totalChars = 16,
        placeholderMap = [(lit ''Hi <t0/>'', [lit ''{{b}}''])]\<rparr>
   = Inr \<lparr>cache = [(lit ''Hi <t0/>'', lit ''Salut <t0/>'')], totalChars = 16,
          placeholderMap = [(lit ''Hi <t0/>'', [lit ''{{b}}''])]\<rparr>
   \<and> traverseJSON False translate
     (JArray [JString (lit ''Hi {{a}}''), JString (lit ''Hi {{b}}'')] :: int jsvalue)
       \<lparr>cache = [(lit ''Hi <t0/>'', lit ''Salut <t0/>'')], totalChars = 16,
        placeholderMap = [(lit ''Hi <t0/>'', [lit ''{{b}}''])]\<rparr>
   = Inr (JArray [JString (lit ''Salut {{b}}''), JString (lit ''Salut {{b}}'')],
          \<lparr>cache = [(lit ''Hi <t0/>'', lit ''Salut <t0/>'')], totalChars = 16,
           placeholderMap = [(lit ''Hi <t0/>'', [lit ''{{b}}''])]\<rparr>)"
  by code_simp

section \<open>The scenarios of the specification\<close>

text \<open>
  The specification's scenarios, run on the model: 120 keys give batches of 49, 49
  and 22 keys; the greeting document is collected into two keys, sent as one batch,
  and rebuilt with the placeholders restored.
\<close>

lemma example_batches_of_120:
  "map length (partitionKeys (map decimal [0..<120])) = [49, 49, 22]"
  by code_simp

lemma example_greeting:
  "traverseJSON False addEntry
     (JObject [(lit ''greeting'', JString (lit ''Hello {{name}}'')),
               (lit ''farewell'', JString (lit ''Bye {{name}}''))] :: int jsvalue) initialState
   = Inr (JObject [(lit ''greeting'', JString (lit ''Hello {{name}}'')),
               (lit ''farewell'', JString (lit ''Bye {{name}}''))],
      \<lparr>cache = [(lit ''Hello <t0/>'', []), (lit ''Bye <t0/>'', [])], totalChars = 20,
       placeholderMap = [(lit ''Hello <t0/>'', [lit ''{{name}}'']),
                         (lit ''Bye <t0/>'', [lit ''{{name}}''])]\<rparr>)
   \<and> partitionKeys [lit ''Hello <t0/>'', lit ''Bye <t0/>'']
       = [[lit ''Hello <t0/>'', lit ''Bye <t0/>'']]
   \<and> submitBatches (\<lambda>batch. Inr [lit ''Bonjour <t0/>'', lit ''Au revoir <t0/>''])
        [[lit ''Hello <t0/>'', lit ''Bye <t0/>'']]
        \<lparr>cache = [(lit ''Hello <t0/>'', []), (lit ''Bye <t0/>'', [])], totalChars = 20,
         placeholderMap = [(lit ''Hello <t0/>'', [lit ''{{name}}'']),
                           (lit ''Bye <t0/>'', [lit ''{{name}}''])]\<rparr>
       = Inr \<lparr>cache = [(lit ''Hello <t0/>'', lit ''Bonjour <t0/>''),
                        (lit ''Bye <t0/>'', lit ''Au revoir <t0/>'')], totalChars = 20,
              placeholderMap = [(lit ''Hello <t0/>'', [lit ''{{name}}'']),
                                (lit ''Bye <t0/>'', [lit ''{{name}}''])]\<rparr>
   \<and> traverseJSON False translate
     (JObject [(lit ''greeting'', JString (lit ''Hello {{name}}'')),
               (lit ''farewell'', JString (lit ''Bye {{name}}''))] :: int jsvalue)
        \<lparr>cache = [(lit ''Hello <t0/>'', lit ''Bonjour <t0/>''),
                  (lit ''Bye <t0/>'', lit ''Au revoir <t0/>'')], totalChars = 20,
         placeholderMap = [(lit ''Hello <t0/>'', [lit ''{{name}}'']),
                           (lit ''Bye <t0/>'', [lit ''{{name}}''])]\<rparr>
   = Inr (JObject [(lit ''greeting'', JString (lit ''Bonjour {{name}}'')),
               (lit ''farewell'', JString (lit ''Au revoir {{name}}''))],
        \<lparr>cache = [(lit ''Hello <t0/>'', lit ''Bonjour <t0/>''),
                  (lit ''Bye <t0/>'', lit ''Au revoir <t0/>'')], totalChars = 20,
         placeholderMap = [(lit ''Hello <t0/>'', [lit ''{{name}}'']),
                           (lit ''Bye <t0/>'', [lit ''{{name}}''])]\<rparr>)"
  by code_simp

end
